theory Spec2Isabelle
  imports Main
begin

section \<open>Data model\<close>

text \<open>
  The Python exceptions that the modelled functions of \<^verbatim>\<open>helper_functions.py\<close> can raise.
\<close>

datatype error = IndexError | TypeError

text \<open>
  A cell value as the functions read it: absent (\<^verbatim>\<open>None\<close>), a text or an integer.
  Floating point cell values are outside the model.
\<close>

datatype cell_val = VNone | VStr string | VInt int

text \<open>
  The border of a cell: the style name of each of the four edges, or \<^verbatim>\<open>None\<close>.
\<close>

record border =
  top_style :: "string option"
  bottom_style :: "string option"
  left_style :: "string option"
  right_style :: "string option"

record cell =
  cell_row :: nat
  cell_column :: nat
  cell_value :: cell_val
  cell_border :: border

text \<open>
  A worksheet: its extents and its cells by (row, column), both 1-based. A position that
  holds no cell reads as a cell without value and without border styles, which is what
  \<^verbatim>\<open>sheet.cell(row=r, column=c)\<close> creates and returns there.
\<close>

record worksheet =
  ws_max_row :: nat
  ws_max_column :: nat
  ws_cells :: "nat \<Rightarrow> nat \<Rightarrow> (cell_val \<times> border) option"

definition no_border :: border where
  "no_border = \<lparr>top_style = None, bottom_style = None, left_style = None, right_style = None\<rparr>"

definition sheet_cell :: "worksheet \<Rightarrow> nat \<Rightarrow> nat \<Rightarrow> cell" where
  "sheet_cell sheet r c =
     (case ws_cells sheet r c of
        None \<Rightarrow> \<lparr>cell_row = r, cell_column = c, cell_value = VNone, cell_border = no_border\<rparr>
      | Some (v, b) \<Rightarrow> \<lparr>cell_row = r, cell_column = c, cell_value = v, cell_border = b\<rparr>)"

section \<open>Border classifier\<close>

definition is_empty_cell :: "cell \<Rightarrow> bool" where
  "is_empty_cell c = (cell_value c = VNone)"

definition has_bottom_right_border :: "cell \<Rightarrow> bool" where
  "has_bottom_right_border c =
     (if bottom_style (cell_border c) \<noteq> None \<and> bottom_style (cell_border c) = Some ''medium'' \<and>
         right_style (cell_border c) \<noteq> None \<and> right_style (cell_border c) = Some ''medium''
      then True else False)"

definition has_top_right_border :: "cell \<Rightarrow> bool" where
  "has_top_right_border c =
     (if top_style (cell_border c) \<noteq> None \<and> top_style (cell_border c) = Some ''medium'' \<and>
         right_style (cell_border c) \<noteq> None \<and> right_style (cell_border c) = Some ''medium''
      then True else False)"

definition has_upper_left_border :: "cell \<Rightarrow> bool" where
  "has_upper_left_border c =
     (if top_style (cell_border c) \<noteq> None \<and> top_style (cell_border c) = Some ''medium'' \<and>
         left_style (cell_border c) \<noteq> None \<and> left_style (cell_border c) = Some ''medium''
      then True else False)"

section \<open>Serialized values and Python string stripping\<close>

text \<open>
  \<^verbatim>\<open>str(n)\<close> of an integer is its decimal numeral, with a minus sign when negative.
\<close>

fun str_nat :: "nat \<Rightarrow> string" where
  "str_nat n =
     (if n < 10 then [char_of (48 + n)] else str_nat (n div 10) @ [char_of (48 + n mod 10)])"

declare str_nat.simps [simp del]

definition str_int :: "int \<Rightarrow> string" where
  "str_int i = (if i < 0 then CHR ''-'' # str_nat (nat (- i)) else str_nat (nat i))"

text \<open>
  \<^verbatim>\<open>serialize_value\<close> is \<^verbatim>\<open>str(cell.value)\<close>: an absent value becomes the
  four-letter text \<^verbatim>\<open>None\<close>.
\<close>

definition serialize_value :: "cell \<Rightarrow> string" where
  "serialize_value c =
     (case cell_value c of VNone \<Rightarrow> ''None'' | VStr s \<Rightarrow> s | VInt i \<Rightarrow> str_int i)"

text \<open>
  The characters that \<^verbatim>\<open>str.strip\<close> and \<^verbatim>\<open>str.lstrip\<close> remove, among the
  characters with a code below 256: tab, line feed, vertical tab, form feed, carriage return,
  the four separators 28 to 31, the space, the next-line character 133 and the no-break
  space 160.
\<close>

definition is_space :: "char \<Rightarrow> bool" where
  "is_space ch =
     ((of_char ch :: nat) \<in> {9, 10, 11, 12, 13, 28, 29, 30, 31, 32, 133, 160})"

definition lstrip :: "string \<Rightarrow> string" where
  "lstrip s = dropWhile is_space s"

definition strip :: "string \<Rightarrow> string" where
  "strip s = rev (dropWhile is_space (rev (dropWhile is_space s)))"

text \<open>
  The number of leading whitespace characters, \<^verbatim>\<open>len(s) - len(s.lstrip())\<close>.
\<close>

definition leading_spaces :: "string \<Rightarrow> nat" where
  "leading_spaces s = length s - length (lstrip s)"

section \<open>Python dictionaries and the values stored in them\<close>

text \<open>
  The values that the functions store: \<^verbatim>\<open>None\<close>, a text, or a dictionary. A
  dictionary is an association list in insertion order with distinct keys; a key is a text or
  \<^verbatim>\<open>None\<close> (the option type's \<open>None\<close>).
\<close>

datatype pyobj = PNone | PStr string | PDict "(string option \<times> pyobj) list"

type_synonym pydict = "(string option \<times> pyobj) list"

text \<open>
  \<^verbatim>\<open>d[k] = v\<close>: an existing key keeps its place and gets the new value, a new key is
  appended.
\<close>

fun dict_set :: "pydict \<Rightarrow> string option \<Rightarrow> pyobj \<Rightarrow> pydict" where
  "dict_set [] k v = [(k, v)]"
| "dict_set ((k', v') # d) k v = (if k' = k then (k, v) # d else (k', v') # dict_set d k v)"

text \<open>\<^verbatim>\<open>dict(pairs)\<close>: the pairs are stored from left to right.\<close>

definition py_dict :: "(string option \<times> pyobj) list \<Rightarrow> pydict" where
  "py_dict ps = foldl (\<lambda>d (k, v). dict_set d k v) [] ps"

definition remove_none_key_value_pairs :: "pydict \<Rightarrow> pydict" where
  "remove_none_key_value_pairs d = filter (\<lambda>(key, val). \<not> (key = None \<and> val = PNone)) d"

section \<open>Rows and columns of a worksheet\<close>

text \<open>
  \<^verbatim>\<open>ws[r]\<close>: the cells of row \<open>r\<close> in columns 1 to \<^verbatim>\<open>max_column\<close>;
  \<^verbatim>\<open>ws.iter_rows(min_row=m)\<close>: the rows \<open>m\<close> to \<^verbatim>\<open>max_row\<close>;
  \<^verbatim>\<open>ws.iter_cols(min_col=1, max_col=1)\<close>: the one column 1, rows 1 to \<^verbatim>\<open>max_row\<close>.
\<close>

definition ws_row :: "worksheet \<Rightarrow> nat \<Rightarrow> cell list" where
  "ws_row ws r = map (sheet_cell ws r) [1 ..< ws_max_column ws + 1]"

definition iter_rows :: "worksheet \<Rightarrow> nat \<Rightarrow> cell list list" where
  "iter_rows ws min_row = map (ws_row ws) [min_row ..< ws_max_row ws + 1]"

definition ws_first_column :: "worksheet \<Rightarrow> cell list" where
  "ws_first_column ws = map (\<lambda>r. sheet_cell ws r 1) [1 ..< ws_max_row ws + 1]"

section \<open>Flat tables\<close>

text \<open>
  The record of one data row before the cleanup: \<^verbatim>\<open>dict(zip(headers, values))\<close>.
\<close>

definition simple_record :: "string list \<Rightarrow> cell list \<Rightarrow> pydict" where
  "simple_record headers row =
     (let values = map serialize_value row
      in py_dict (zip (map Some headers) (map PStr values)))"

definition process_simple_table :: "worksheet \<Rightarrow> pydict list" where
  "process_simple_table ws =
     (let headers = map serialize_value (ws_row ws 1)
      in map (\<lambda>row. remove_none_key_value_pairs (simple_record headers row)) (iter_rows ws 2))"

section \<open>Hierarchical tables\<close>

fun calculate_num_leading_space_per_level :: "string list \<Rightarrow> int" where
  "calculate_num_leading_space_per_level (current_header # next_header # rest) =
     (let current_spaces = int (length current_header) - int (length (lstrip current_header));
          next_spaces = int (length next_header) - int (length (lstrip next_header))
      in if next_spaces \<noteq> current_spaces then next_spaces - current_spaces
         else calculate_num_leading_space_per_level (next_header # rest))"
| "calculate_num_leading_space_per_level _ = 0"

text \<open>
  The loop and the final assignment of \<^verbatim>\<open>add_data\<close>, on the dictionary that
  \<^verbatim>\<open>current_level\<close> names. The source mutates the nested dictionaries in place; no
  dictionary of the tree is shared, so the model rebuilds the entry of the parent. When the entry
  under an ancestor label is not a dictionary (a text of a leaf), the next membership test,
  subscript or assignment on it raises \<^verbatim>\<open>TypeError\<close>. \<^verbatim>\<open>nodes[-1]\<close> of an
  empty list raises \<^verbatim>\<open>IndexError\<close>.
\<close>

fun add_data_at :: "pydict \<Rightarrow> string list \<Rightarrow> pydict \<Rightarrow> error + pydict" where
  "add_data_at current_level [] leaf = Inl IndexError"
| "add_data_at current_level [node] leaf = Inr (dict_set current_level (Some node) (PDict leaf))"
| "add_data_at current_level (node # nodes) leaf =
     (let created = (if map_of current_level (Some node) = None
                     then dict_set current_level (Some node) (PDict [])
                     else current_level)
      in case map_of created (Some node) of
           Some (PDict child) \<Rightarrow>
             (case add_data_at child nodes leaf of
                Inl e \<Rightarrow> Inl e
              | Inr child' \<Rightarrow> Inr (dict_set created (Some node) (PDict child')))
         | _ \<Rightarrow> Inl TypeError)"

definition add_data :: "pydict \<Rightarrow> string list \<Rightarrow> string list \<Rightarrow> cell list \<Rightarrow> error + pydict" where
  "add_data processed_table nodes col_headers data_cells =
     add_data_at processed_table nodes
       (py_dict (zip (map Some col_headers) (map (\<lambda>d. PStr (serialize_value d)) data_cells)))"

text \<open>
  The body of the loop over the data rows: the level is the number of leading whitespace
  characters of the row label (the division by the indentation unit is commented out in the
  source), the path is cut to that length and the stripped label appended, and the row is
  attached when one of its data cells has a value. \<^verbatim>\<open>row[0]\<close> of an empty row raises
  \<^verbatim>\<open>IndexError\<close>.
\<close>

definition row_level :: "cell list \<Rightarrow> nat" where
  "row_level row = (case row of [] \<Rightarrow> 0 | c0 # data_cells \<Rightarrow> leading_spaces (serialize_value c0))"

definition row_step ::
  "string list \<Rightarrow> string list \<times> pydict \<Rightarrow> cell list \<Rightarrow> error + (string list \<times> pydict)" where
  "row_step col_headers st row =
     (case row of
        [] \<Rightarrow> Inl IndexError
      | c0 # data_cells \<Rightarrow>
          (let level = row_level row;
               label = strip (serialize_value c0);
               nodes = take level (fst st) @ [label]
           in if filter (\<lambda>c. cell_value c \<noteq> VNone) data_cells \<noteq> []
              then (case add_data (snd st) nodes col_headers data_cells of
                      Inl e \<Rightarrow> Inl e
                    | Inr processed_table \<Rightarrow> Inr (nodes, processed_table))
              else Inr (nodes, snd st)))"

fun process_rows ::
  "string list \<Rightarrow> cell list list \<Rightarrow> string list \<times> pydict \<Rightarrow> error + (string list \<times> pydict)" where
  "process_rows col_headers [] st = Inr st"
| "process_rows col_headers (row # rows) st =
     (case row_step col_headers st row of
        Inl e \<Rightarrow> Inl e
      | Inr st' \<Rightarrow> process_rows col_headers rows st')"

text \<open>
  The indentation unit as the source computes it (and then never uses it): the first non-zero
  difference of leading whitespace between consecutive row labels, or 1 when there is none.
\<close>

definition num_leading_space_per_level :: "worksheet \<Rightarrow> int" where
  "num_leading_space_per_level ws =
     (let row_headers = map serialize_value (drop 1 (ws_first_column ws));
          n = calculate_num_leading_space_per_level row_headers
      in if n = 0 then 1 else n)"

definition build_table :: "worksheet \<Rightarrow> error + (string list \<times> pydict)" where
  "build_table ws =
     (let col_headers = map serialize_value (drop 1 (ws_row ws 1))
      in process_rows col_headers (iter_rows ws 2) ([], []))"

definition process_hierarchical_table :: "worksheet \<Rightarrow> error + pydict" where
  "process_hierarchical_table ws =
     (case build_table ws of
        Inl e \<Rightarrow> Inl e
      | Inr (nodes, processed_table) \<Rightarrow> Inr (remove_none_key_value_pairs processed_table))"

text \<open>
  Reading a tree along a path of labels: the entry under the last label, reached through
  dictionaries only.
\<close>

fun path_get :: "pydict \<Rightarrow> string list \<Rightarrow> pyobj option" where
  "path_get d [] = None"
| "path_get d [node] = map_of d (Some node)"
| "path_get d (node # nodes) =
     (case map_of d (Some node) of Some (PDict child) \<Rightarrow> path_get child nodes | _ \<Rightarrow> None)"

section \<open>Table region detector\<close>

definition MAX_ROW_IDX :: nat where
  "MAX_ROW_IDX = 100"

text \<open>
  A detected range by its four coordinates. The source renders it as a text
  \<^verbatim>\<open>A45:C46\<close> through the spreadsheet library; the model keeps the numbers.
\<close>

record table_range =
  startRow :: nat
  startCol :: nat
  endRow :: nat
  endCol :: nat

text \<open>
  The visited mask is a list of \<^verbatim>\<open>MAX_ROW_IDX\<close> rows of \<^verbatim>\<open>max_column\<close> flags,
  read and written by index; an index beyond the list raises \<^verbatim>\<open>IndexError\<close>.
\<close>

definition visited_get :: "bool list list \<Rightarrow> nat \<Rightarrow> nat \<Rightarrow> error + bool" where
  "visited_get vis r c =
     (if r < length vis \<and> c < length (vis ! r) then Inr (vis ! r ! c) else Inl IndexError)"

definition visited_set :: "bool list list \<Rightarrow> nat \<Rightarrow> nat \<Rightarrow> error + bool list list" where
  "visited_set vis r c =
     (if r < length vis \<and> c < length (vis ! r) then Inr (vis[r := (vis ! r)[c := True]])
      else Inl IndexError)"

text \<open>
  The worksheet of a new workbook holds no cell and reports one row and one column. Writing a
  value at a position creates the cell there when there is none.
\<close>

definition new_worksheet :: worksheet where
  "new_worksheet = \<lparr>ws_max_row = 1, ws_max_column = 1, ws_cells = (\<lambda>r c. None)\<rparr>"

definition ws_set_value :: "worksheet \<Rightarrow> nat \<Rightarrow> nat \<Rightarrow> cell_val \<Rightarrow> worksheet" where
  "ws_set_value ws r c v =
     \<lparr>ws_max_row = max (ws_max_row ws) r,
      ws_max_column = max (ws_max_column ws) c,
      ws_cells = (\<lambda>r' c'. if r' = r \<and> c' = c
                            then Some (v, cell_border (sheet_cell ws r c))
                            else ws_cells ws r' c')\<rparr>"

text \<open>
  \<^verbatim>\<open>mark_cells_visited\<close>: the two nested loops visit the positions of the rectangle row
  by row; each position is marked in the mask and its value copied into the new worksheet,
  re-indexed from (1, 1).
\<close>

fun mark_cells ::
  "worksheet \<Rightarrow> nat \<Rightarrow> nat \<Rightarrow> (nat \<times> nat) list \<Rightarrow> bool list list \<times> worksheet \<Rightarrow>
     error + (bool list list \<times> worksheet)" where
  "mark_cells sheet start_row start_col [] acc = Inr acc"
| "mark_cells sheet start_row start_col ((row, col) # rest) acc =
     (case visited_set (fst acc) row col of
        Inl e \<Rightarrow> Inl e
      | Inr vis \<Rightarrow>
          mark_cells sheet start_row start_col rest
            (vis, ws_set_value (snd acc) (row - start_row + 1) (col - start_col + 1)
                    (cell_value (sheet_cell sheet row col))))"

definition mark_cells_visited ::
  "worksheet \<Rightarrow> bool list list \<Rightarrow> nat \<Rightarrow> nat \<Rightarrow> nat \<Rightarrow> nat \<Rightarrow>
     error + (bool list list \<times> worksheet)" where
  "mark_cells_visited sheet vis start_row start_col end_row end_col =
     mark_cells sheet start_row start_col
       (List.product [start_row ..< end_row + 1] [start_col ..< end_col + 1]) (vis, new_worksheet)"

text \<open>
  The worksheet that the loops of \<^verbatim>\<open>mark_cells_visited\<close> fill, on its own: the
  extracted sub-grid of a range.
\<close>

fun copy_cells :: "worksheet \<Rightarrow> nat \<Rightarrow> nat \<Rightarrow> (nat \<times> nat) list \<Rightarrow> worksheet \<Rightarrow> worksheet" where
  "copy_cells sheet start_row start_col [] ws = ws"
| "copy_cells sheet start_row start_col ((row, col) # rest) ws =
     copy_cells sheet start_row start_col rest
       (ws_set_value ws (row - start_row + 1) (col - start_col + 1)
          (cell_value (sheet_cell sheet row col)))"

definition extract_subgrid :: "worksheet \<Rightarrow> table_range \<Rightarrow> worksheet" where
  "extract_subgrid sheet rg =
     copy_cells sheet (startRow rg) (startCol rg)
       (List.product [startRow rg ..< endRow rg + 1] [startCol rg ..< endCol rg + 1])
       new_worksheet"

text \<open>
  The two inner \<^verbatim>\<open>for\<close> loops that look for the closing corners. Each starts from the
  end coordinate initialised to the start coordinate and overwrites it only when a marker is
  found.
\<close>

fun scan_end_col :: "worksheet \<Rightarrow> nat \<Rightarrow> nat list \<Rightarrow> nat \<Rightarrow> nat" where
  "scan_end_col sheet table_start_row [] table_end_col = table_end_col"
| "scan_end_col sheet table_start_row (col_idx_inner # rest) table_end_col =
     (if has_top_right_border (sheet_cell sheet table_start_row (col_idx_inner - 1))
      then col_idx_inner - 1
      else scan_end_col sheet table_start_row rest table_end_col)"

definition find_end_col :: "worksheet \<Rightarrow> nat \<Rightarrow> nat \<Rightarrow> nat" where
  "find_end_col sheet table_start_row table_start_col =
     scan_end_col sheet table_start_row [table_start_col + 1 ..< ws_max_column sheet + 1]
       table_start_col"

fun scan_end_row :: "worksheet \<Rightarrow> nat \<Rightarrow> nat list \<Rightarrow> nat \<Rightarrow> nat" where
  "scan_end_row sheet table_end_col [] table_end_row = table_end_row"
| "scan_end_row sheet table_end_col (row_idx_inner # rest) table_end_row =
     (if has_bottom_right_border (sheet_cell sheet (row_idx_inner - 1) table_end_col)
      then row_idx_inner - 1
      else scan_end_row sheet table_end_col rest table_end_row)"

definition find_end_row :: "worksheet \<Rightarrow> nat \<Rightarrow> nat \<Rightarrow> nat" where
  "find_end_row sheet table_start_row table_end_col =
     scan_end_row sheet table_end_col [table_start_row + 1 ..< MAX_ROW_IDX + 1] table_start_row"

text \<open>The variables of \<^verbatim>\<open>get_table_ranges\<close> that live across loop iterations.\<close>

record scan_state =
  table_ranges :: "table_range list"
  simple_table_workbooks :: "worksheet list"
  complex_table_workbooks :: "worksheet list"
  visited :: "bool list list"
  is_complex :: bool

text \<open>
  The branch taken when the cell at the scan position has the upper-left corner marker.
\<close>

definition detect_table :: "worksheet \<Rightarrow> cell \<Rightarrow> scan_state \<Rightarrow> error + scan_state" where
  "detect_table sheet cell st =
     (let table_start_row = cell_row cell;
          table_start_col = cell_column cell;
          complex = (if is_empty_cell cell then True else is_complex st);
          table_end_col = find_end_col sheet table_start_row table_start_col;
          table_end_row = find_end_row sheet table_start_row table_end_col;
          table_range = \<lparr>startRow = table_start_row, startCol = table_start_col,
                         endRow = table_end_row, endCol = table_end_col\<rparr>
      in case mark_cells_visited sheet (visited st)
                table_start_row table_start_col table_end_row table_end_col of
           Inl e \<Rightarrow> Inl e
         | Inr (vis, wb) \<Rightarrow>
             Inr (if complex
                  then st\<lparr>table_ranges := table_ranges st @ [table_range],
                          complex_table_workbooks := complex_table_workbooks st @ [wb],
                          visited := vis, is_complex := False\<rparr>
                  else st\<lparr>table_ranges := table_ranges st @ [table_range],
                          simple_table_workbooks := simple_table_workbooks st @ [wb],
                          visited := vis, is_complex := complex\<rparr>))"

text \<open>
  The inner \<^verbatim>\<open>while\<close> loop over the columns of one row. (The source also reads a
  \<^verbatim>\<open>pre_cell\<close> to the left that it never uses.)
\<close>

function col_loop :: "worksheet \<Rightarrow> nat \<Rightarrow> nat \<Rightarrow> scan_state \<Rightarrow> error + scan_state" where
  "col_loop sheet row_idx col_idx st =
     (if col_idx < ws_max_column sheet then
        (case visited_get (visited st) row_idx col_idx of
           Inl e \<Rightarrow> Inl e
         | Inr v \<Rightarrow>
             if v \<or> row_idx < 45 then col_loop sheet row_idx (col_idx + 1) st
             else if has_upper_left_border (sheet_cell sheet row_idx col_idx) then
               (case detect_table sheet (sheet_cell sheet row_idx col_idx) st of
                  Inl e \<Rightarrow> Inl e
                | Inr st' \<Rightarrow> col_loop sheet row_idx (col_idx + 1) st')
             else col_loop sheet row_idx (col_idx + 1) st)
      else Inr st)"
  by pat_completeness auto
termination
  by (relation "measure (\<lambda>(sheet, row_idx, col_idx, st). ws_max_column sheet - col_idx)") auto

declare col_loop.simps [simp del]

text \<open>The outer \<^verbatim>\<open>while\<close> loop over the rows.\<close>

function row_loop :: "worksheet \<Rightarrow> nat \<Rightarrow> scan_state \<Rightarrow> error + scan_state" where
  "row_loop sheet row_idx st =
     (if row_idx < MAX_ROW_IDX then
        (case col_loop sheet row_idx 1 (st\<lparr>is_complex := False\<rparr>) of
           Inl e \<Rightarrow> Inl e
         | Inr st' \<Rightarrow> row_loop sheet (row_idx + 1) st')
      else Inr st)"
  by pat_completeness auto
termination
  by (relation "measure (\<lambda>(sheet, row_idx, st). MAX_ROW_IDX - row_idx)") auto

declare row_loop.simps [simp del]

definition initial_state :: "worksheet \<Rightarrow> scan_state" where
  "initial_state sheet =
     \<lparr>table_ranges = [], simple_table_workbooks = [], complex_table_workbooks = [],
      visited = replicate MAX_ROW_IDX (replicate (ws_max_column sheet) False),
      is_complex = False\<rparr>"

definition get_table_ranges ::
  "worksheet \<Rightarrow> error + (table_range list \<times> worksheet list \<times> worksheet list)" where
  "get_table_ranges sheet =
     (case row_loop sheet 1 (initial_state sheet) of
        Inl e \<Rightarrow> Inl e
      | Inr st \<Rightarrow>
          Inr (table_ranges st, simple_table_workbooks st, complex_table_workbooks st))"

section \<open>Example worksheets\<close>

text \<open>A worksheet without borders, from the rows of its values.\<close>

definition sheet_of_rows :: "cell_val list list \<Rightarrow> worksheet" where
  "sheet_of_rows rows =
     \<lparr>ws_max_row = length rows,
      ws_max_column = (case rows of [] \<Rightarrow> 1 | row # _ \<Rightarrow> length row),
      ws_cells = (\<lambda>r c. if 1 \<le> r \<and> r \<le> length rows \<and> 1 \<le> c \<and> c \<le> length (rows ! (r - 1))
                         then Some (rows ! (r - 1) ! (c - 1), no_border) else None)\<rparr>"

text \<open>A worksheet from its extents and the cells it holds, listed by position.\<close>

definition sheet_of_cells ::
  "nat \<Rightarrow> nat \<Rightarrow> ((nat \<times> nat) \<times> cell_val \<times> border) list \<Rightarrow> worksheet" where
  "sheet_of_cells max_row max_column cells =
     \<lparr>ws_max_row = max_row, ws_max_column = max_column,
      ws_cells = (\<lambda>r c. map_of cells (r, c))\<rparr>"

definition edges :: "bool \<Rightarrow> bool \<Rightarrow> bool \<Rightarrow> bool \<Rightarrow> border" where
  "edges t b l r =
     \<lparr>top_style = (if t then Some ''medium'' else None),
      bottom_style = (if b then Some ''medium'' else None),
      left_style = (if l then Some ''medium'' else None),
      right_style = (if r then Some ''medium'' else None)\<rparr>"

text \<open>A cell without border at a position, with a value.\<close>

definition value_cell :: "nat \<Rightarrow> nat \<Rightarrow> cell_val \<Rightarrow> cell" where
  "value_cell r c v = \<lparr>cell_row = r, cell_column = c, cell_value = v, cell_border = no_border\<rparr>"

text \<open>The flat table of the docstring, with an empty second header.\<close>

definition simple_example :: worksheet where
  "simple_example = sheet_of_rows
     [[VStr ''Month'', VNone], [VStr ''January'', VNone], [VStr ''February'', VInt 80]]"

text \<open>Row labels with 0, 3, 3 and 6 leading spaces, each row with data.\<close>

definition indent_example :: worksheet where
  "indent_example = sheet_of_rows
     [[VNone, VStr ''H''], [VStr ''A'', VStr ''1''], [VStr ''   B'', VStr ''2''],
      [VStr ''   C'', VStr ''3''], [VStr ''      D'', VStr ''4'']]"

text \<open>A category row and a data row below it.\<close>

definition leaf_example :: worksheet where
  "leaf_example = sheet_of_rows
     [[VNone, VStr ''Jan'', VStr ''Feb''], [VStr ''Assets'', VNone, VNone],
      [VStr ''  Cash'', VStr ''100'', VStr ''200'']]"

text \<open>Two columns with the same header.\<close>

definition duplicate_example :: worksheet where
  "duplicate_example = sheet_of_rows
     [[VNone, VStr ''X'', VStr ''X''], [VStr ''A'', VStr ''1'', VStr ''2'']]"

text \<open>
  A data row \<open>A\<close>, below it two category rows \<open>X\<close> (the text of a column header) and
  \<open>Y\<close>, each one level deeper, and a data row \<open>Z\<close> one level deeper again.
\<close>

definition orphan_example :: worksheet where
  "orphan_example = sheet_of_rows
     [[VNone, VStr ''X''], [VStr ''A'', VStr ''1''], [VStr '' X'', VNone],
      [VStr ''  Y'', VNone], [VStr ''   Z'', VStr ''2'']]"

text \<open>
  A corner at row 45, column 1 of a sheet of five columns, with no closing corner anywhere.
\<close>

definition unclosed_example :: worksheet where
  "unclosed_example = sheet_of_cells 60 5 [((45, 1), (VStr ''h'', edges True False True False))]"

text \<open>
  A closed one-column table in column 3, rows 45 to 46, with an empty corner cell, and a
  corner at row 46, column 1 whose row runs into the top-right marker of cell (46, 3).
\<close>

definition overlap_example :: worksheet where
  "overlap_example = sheet_of_cells 60 5
     [((45, 3), (VNone, edges True False True True)),
      ((46, 3), (VStr ''x'', edges True True False True)),
      ((46, 1), (VStr ''y'', edges True False True False))]"

section \<open>Predicates used in the statements\<close>

text \<open>
  The top level of a tree is well formed over a set of labels when every key is one of the
  labels and every value is a dictionary.
\<close>

definition top_ok :: "string set \<Rightarrow> pydict \<Rightarrow> bool" where
  "top_ok L t = (\<forall>(k, v) \<in> set t. k \<in> Some ` L \<and> (\<exists>c. v = PDict c))"

text \<open>A position lies in a range.\<close>

definition in_range :: "table_range \<Rightarrow> nat \<Rightarrow> nat \<Rightarrow> bool" where
  "in_range rg r c = (startRow rg \<le> r \<and> r \<le> endRow rg \<and> startCol rg \<le> c \<and> c \<le> endCol rg)"

text \<open>
  A range as the detector emits it: the corner lies in the scanned part of the sheet and has
  the upper-left marker, and the end coordinates are what the two inner loops return.
\<close>

definition detected :: "worksheet \<Rightarrow> table_range \<Rightarrow> bool" where
  "detected sheet rg =
     (45 \<le> startRow rg \<and> startRow rg < MAX_ROW_IDX \<and>
      1 \<le> startCol rg \<and> startCol rg < ws_max_column sheet \<and>
      has_upper_left_border (sheet_cell sheet (startRow rg) (startCol rg)) \<and>
      endCol rg = find_end_col sheet (startRow rg) (startCol rg) \<and>
      endRow rg = find_end_row sheet (startRow rg) (endCol rg))"

text \<open>
  In a list of ranges in scan order, the corner of a later range lies in no earlier range.
\<close>

fun corners_apart :: "table_range list \<Rightarrow> bool" where
  "corners_apart [] = True"
| "corners_apart (rg # rest) =
     ((\<forall>rg' \<in> set rest. \<not> in_range rg (startRow rg') (startCol rg')) \<and> corners_apart rest)"

definition mask_ok :: "nat \<Rightarrow> bool list list \<Rightarrow> bool" where
  "mask_ok max_column vis =
     (length vis = MAX_ROW_IDX \<and> (\<forall>row \<in> set vis. length row = max_column))"

definition corner_empty :: "worksheet \<Rightarrow> table_range \<Rightarrow> bool" where
  "corner_empty sheet rg = is_empty_cell (sheet_cell sheet (startRow rg) (startCol rg))"

text \<open>The invariant of the two scan loops.\<close>

definition scan_inv :: "worksheet \<Rightarrow> scan_state \<Rightarrow> bool" where
  "scan_inv sheet st =
     (mask_ok (ws_max_column sheet) (visited st) \<and>
      (\<forall>rg \<in> set (table_ranges st). detected sheet rg) \<and>
      (\<forall>rg \<in> set (table_ranges st). \<forall>r c. in_range rg r c \<longrightarrow> visited st ! r ! c) \<and>
      corners_apart (table_ranges st) \<and>
      simple_table_workbooks st =
        map (extract_subgrid sheet) (filter (\<lambda>rg. \<not> corner_empty sheet rg) (table_ranges st)) \<and>
      complex_table_workbooks st =
        map (extract_subgrid sheet) (filter (corner_empty sheet) (table_ranges st)) \<and>
      \<not> is_complex st)"

section \<open>Properties of the border classifier\<close>

text \<open>
  C8. For every cell, the upper-left corner predicate holds iff the top and the left edge
  style are both "medium", the top-right corner predicate iff the top and the right edge
  style are, and the bottom-right corner predicate iff the bottom and the right edge style
  are. Each predicate is a function of the cell's border alone: the row, the column and the
  value of the cell can be replaced by any others without changing the answer.
\<close>

theorem border_corner_predicates:
  "(has_upper_left_border c \<longleftrightarrow>
      top_style (cell_border c) = Some ''medium'' \<and> left_style (cell_border c) = Some ''medium'') \<and>
   (has_top_right_border c \<longleftrightarrow>
      top_style (cell_border c) = Some ''medium'' \<and> right_style (cell_border c) = Some ''medium'') \<and>
   (has_bottom_right_border c \<longleftrightarrow>
      bottom_style (cell_border c) = Some ''medium'' \<and> right_style (cell_border c) = Some ''medium'') \<and>
   has_upper_left_border
      \<lparr>cell_row = r, cell_column = k, cell_value = v, cell_border = cell_border c\<rparr> =
        has_upper_left_border c \<and>
   has_top_right_border
      \<lparr>cell_row = r, cell_column = k, cell_value = v, cell_border = cell_border c\<rparr> =
        has_top_right_border c \<and>
   has_bottom_right_border
      \<lparr>cell_row = r, cell_column = k, cell_value = v, cell_border = cell_border c\<rparr> =
        has_bottom_right_border c"
  by (simp add: has_upper_left_border_def has_top_right_border_def has_bottom_right_border_def)

section \<open>Dictionaries\<close>

lemma map_of_dict_set: "map_of (dict_set d k v) = (map_of d)(k \<mapsto> v)"
  by (induction d k v rule: dict_set.induct) (auto simp: fun_eq_iff)

lemma keys_dict_set: "fst ` set (dict_set d k v) = insert k (fst ` set d)"
  by (induction d k v rule: dict_set.induct) auto

lemma set_dict_set_subset: "set (dict_set d k v) \<subseteq> insert (k, v) (set d)"
  by (induction d k v rule: dict_set.induct) auto

lemma foldl_dict_set_map_of:
  "map_of (foldl (\<lambda>d (k, v). dict_set d k v) d0 ps) = map_of d0 ++ map_of (rev ps)"
proof (induction ps arbitrary: d0)
  case Nil
  then show ?case by simp
next
  case (Cons p ps)
  obtain k v where p: "p = (k, v)" by (cases p)
  show ?case
    by (simp add: p Cons.IH map_of_dict_set map_add_def fun_eq_iff split: option.splits)
qed

lemma map_of_py_dict: "map_of (py_dict ps) = map_of (rev ps)"
  by (simp add: py_dict_def foldl_dict_set_map_of)

lemma keys_py_dict: "fst ` set (py_dict ps) = fst ` set ps"
proof -
  have "fst ` set (py_dict ps) = dom (map_of (py_dict ps))"
    by (simp add: dom_map_of_conv_image_fst)
  also have "\<dots> = dom (map_of (rev ps))"
    by (simp add: map_of_py_dict)
  also have "\<dots> = fst ` set ps"
    by (simp add: dom_map_of_conv_image_fst)
  finally show ?thesis .
qed

section \<open>Flat tables: records and the cleanup\<close>

lemma length_ws_row: "length (ws_row ws r) = ws_max_column ws"
  by (simp add: ws_row_def del: upt_Suc)

lemma keys_simple_record:
  "length headers = length row \<Longrightarrow> fst ` set (simple_record headers row) = Some ` set headers"
proof -
  assume len: "length headers = length row"
  have "map fst (zip (map Some headers) (map PStr (map serialize_value row))) = map Some headers"
    using len by (simp add: map_fst_zip)
  then have "fst ` set (zip (map Some headers) (map PStr (map serialize_value row))) =
             set (map Some headers)"
    by (metis set_map)
  then show ?thesis
    by (simp add: simple_record_def keys_py_dict Let_def)
qed

lemma remove_none_some_keys:
  "fst ` set d \<subseteq> range Some \<Longrightarrow> remove_none_key_value_pairs d = d"
  by (auto simp: remove_none_key_value_pairs_def filter_id_conv)

text \<open>
  What the source does on every worksheet: it returns (row count - 1) records, record \<open>i\<close>
  is built from data row \<open>i + 2\<close>, and the key set of every record is the whole set of
  serialized header values. The values are serialized before the cleanup runs, so every key
  and every value is a text (an empty cell gives the text \<^verbatim>\<open>None\<close>) and the cleanup
  removes nothing.
\<close>

lemma simple_table_keys:
  "length (process_simple_table ws) = ws_max_row ws - 1 \<and>
   (\<forall>i < ws_max_row ws - 1.
      process_simple_table ws ! i =
        simple_record (map serialize_value (ws_row ws 1)) (ws_row ws (i + 2)) \<and>
      fst ` set (process_simple_table ws ! i) = Some ` set (map serialize_value (ws_row ws 1)))"
proof -
  define hs where "hs = map serialize_value (ws_row ws 1)"
  have len: "length (process_simple_table ws) = ws_max_row ws - 1"
    by (simp add: process_simple_table_def iter_rows_def Let_def del: upt_Suc)
  have keys: "fst ` set (simple_record hs (ws_row ws (i + 2))) = Some ` set hs" for i
    by (rule keys_simple_record) (simp add: hs_def length_ws_row)
  have same: "remove_none_key_value_pairs (simple_record hs (ws_row ws (i + 2))) =
               simple_record hs (ws_row ws (i + 2))" for i
    using keys [of i] by (intro remove_none_some_keys) auto
  have nth: "process_simple_table ws ! i = simple_record hs (ws_row ws (i + 2))"
    if "i < ws_max_row ws - 1" for i
    using that same [of i]
    by (simp add: process_simple_table_def iter_rows_def Let_def hs_def add.commute del: upt_Suc)
  have "\<forall>i < ws_max_row ws - 1.
      process_simple_table ws ! i = simple_record hs (ws_row ws (i + 2)) \<and>
      fst ` set (process_simple_table ws ! i) = Some ` set hs"
    using nth keys by simp
  with len show ?thesis unfolding hs_def by (rule conjI)
qed

text \<open>
  C3. The specification says that flattening a Simple sub-grid gives (row count - 1) records
  whose keys are the serialized header values, without the pairs whose key and value are both
  empty. On this sub-grid of three rows the second header cell and the second cell of the
  first data row are both empty. The source returns two records, as specified, but the first
  record keeps the pair of the two empty cells, as the texts \<^verbatim>\<open>None\<close> and
  \<^verbatim>\<open>None\<close>: \<^verbatim>\<open>serialize_value\<close> has turned both into texts before
  \<^verbatim>\<open>remove_none_key_value_pairs\<close> looks for \<^verbatim>\<open>None\<close>, so the cleanup can
  never remove a pair.
\<close>

theorem empty_pair_kept:
  "cell_value (sheet_cell simple_example 1 2) = VNone \<and>
   cell_value (sheet_cell simple_example 2 2) = VNone \<and>
   ws_max_row simple_example = 3 \<and>
   process_simple_table simple_example =
     [[(Some ''Month'', PStr ''January''), (Some ''None'', PStr ''None'')],
      [(Some ''Month'', PStr ''February''), (Some ''None'', PStr ''80'')]]"
  by code_simp

section \<open>Hierarchical tables: attaching a row\<close>

lemma add_data_at_path:
  "add_data_at d nodes leaf = Inr d' \<Longrightarrow> path_get d' nodes = Some (PDict leaf)"
proof (induction d nodes leaf arbitrary: d' rule: add_data_at.induct)
  case (1 current_level leaf)
  then show ?case by simp
next
  case (2 current_level node leaf)
  then show ?case by (auto simp: map_of_dict_set)
next
  case (3 current_level node n ns leaf)
  then show ?case
    by (auto simp: map_of_dict_set Let_def split: if_splits option.splits pyobj.splits sum.splits)
qed

lemma add_data_at_top:
  assumes "add_data_at d nodes leaf = Inr d'" and "(k, v) \<in> set d'"
  shows "(k, v) \<in> set d \<or> (k = Some (hd nodes) \<and> (\<exists>c. v = PDict c))"
proof (cases nodes)
  case Nil
  with assms show ?thesis by simp
next
  case (Cons n ns)
  show ?thesis
  proof (cases ns)
    case Nil
    with Cons assms set_dict_set_subset [of d "Some n" "PDict leaf"] show ?thesis
      by auto
  next
    case (Cons m ms)
    define created where "created = (if map_of d (Some n) = None
                     then dict_set d (Some n) (PDict []) else d)"
    have cr: "set created \<subseteq> insert (Some n, PDict []) (set d)"
      using set_dict_set_subset [of d "Some n" "PDict []"] by (auto simp: created_def)
    from assms(1) obtain child' where "d' = dict_set created (Some n) (PDict child')"
      unfolding \<open>nodes = n # ns\<close> Cons created_def
      by (auto simp: Let_def split: option.splits pyobj.splits sum.splits if_splits)
    with assms(2) set_dict_set_subset [of created "Some n" "PDict child'"] cr
    show ?thesis unfolding \<open>nodes = n # ns\<close> by auto
  qed
qed

lemma add_data_at_missing:
  "map_of d (Some node) = None \<Longrightarrow> \<exists>d'. add_data_at d (node # nodes @ [last_node]) leaf = Inr d'"
proof (induction nodes arbitrary: d node)
  case Nil
  then show ?case by (simp add: map_of_dict_set)
next
  case (Cons n ns)
  have "\<exists>c'. add_data_at [] (n # ns @ [last_node]) leaf = Inr c'"
    by (rule Cons.IH) simp
  then show ?case using Cons.prems
    by (auto simp: map_of_dict_set)
qed

lemma map_of_Some_keys:
  "map_of (map (\<lambda>(k, v). (Some k, v)) xs) (Some h) = map_of xs h"
  by (induction xs) auto

lemma map_of_leaf:
  "map_of (py_dict (zip (map Some hdrs) vs)) (Some h) = map_of (rev (zip hdrs vs)) h"
proof -
  have "zip (map Some hdrs) vs = map (\<lambda>(k, v). (Some k, v)) (zip hdrs vs)"
    by (simp add: zip_map1)
  then show ?thesis
    by (simp add: map_of_py_dict rev_map map_of_Some_keys)
qed

lemma map_of_rev_zip_distinct:
  assumes "distinct hdrs" "i < length hdrs" "i < length vs"
  shows "map_of (rev (zip hdrs vs)) (hdrs ! i) = Some (vs ! i)"
proof -
  have "distinct (map fst (zip hdrs vs))"
    using assms(1) by (simp add: map_fst_zip_take distinct_take)
  then have "distinct (map fst (rev (zip hdrs vs)))"
    by (simp add: rev_map [symmetric])
  moreover have "(hdrs ! i, vs ! i) \<in> set (rev (zip hdrs vs))"
    using assms(2,3) by (auto simp: set_zip)
  ultimately show ?thesis by (rule map_of_is_SomeI)
qed

text \<open>
  C6, amended. For a data row with label cell \<open>c0\<close> and data cells \<open>data_cells\<close>, the
  path of the row is the previous path cut to the row's level, followed by the stripped label.
  If no data cell has a value, the step leaves the tree unchanged and returns that path, so
  the label extends the path for the rows below. If some data cell has a value and the step
  completes, the tree holds at that path the leaf \<^verbatim>\<open>dict(zip(col_headers, values))\<close>.
  The leaf gives each header the serialized data cell at the last position where that header
  occurs; when the headers are distinct, header \<open>i\<close> is paired with data cell \<open>i\<close>.
\<close>

theorem row_step_leaf:
  fixes nodes hdrs :: "string list" and c0 :: cell and data_cells :: "cell list"
  assumes row: "row = c0 # data_cells"
  defines "path \<equiv> take (leading_spaces (serialize_value c0)) nodes @ [strip (serialize_value c0)]"
  defines "leaf \<equiv> py_dict (zip (map Some hdrs) (map (\<lambda>d. PStr (serialize_value d)) data_cells))"
  shows "((\<forall>c \<in> set data_cells. cell_value c = VNone) \<longrightarrow>
            row_step hdrs (nodes, t) row = Inr (path, t)) \<and>
         ((\<exists>c \<in> set data_cells. cell_value c \<noteq> VNone) \<longrightarrow>
            row_step hdrs (nodes, t) row = Inr (nodes', t') \<longrightarrow>
              nodes' = path \<and> path_get t' path = Some (PDict leaf)) \<and>
         (\<forall>h. map_of leaf (Some h) =
                map_of (rev (zip hdrs (map (\<lambda>d. PStr (serialize_value d)) data_cells))) h) \<and>
         (distinct hdrs \<longrightarrow>
            (\<forall>i. i < length hdrs \<and> i < length data_cells \<longrightarrow>
               map_of leaf (Some (hdrs ! i)) = Some (PStr (serialize_value (data_cells ! i)))))"
proof (intro conjI impI allI)
  assume "\<forall>c \<in> set data_cells. cell_value c = VNone"
  then have "filter (\<lambda>c. cell_value c \<noteq> VNone) data_cells = []"
    by (simp add: filter_empty_conv)
  then show "row_step hdrs (nodes, t) row = Inr (path, t)"
    by (simp add: row_step_def row row_level_def path_def Let_def)
next
  assume pop: "\<exists>c \<in> set data_cells. cell_value c \<noteq> VNone"
    and step: "row_step hdrs (nodes, t) row = Inr (nodes', t')"
  from pop have ne: "filter (\<lambda>c. cell_value c \<noteq> VNone) data_cells \<noteq> []"
    by (simp add: filter_empty_conv)
  from step ne have n': "nodes' = path" and ad: "add_data_at t path leaf = Inr t'"
    by (auto simp: row_step_def row row_level_def path_def leaf_def add_data_def Let_def
          split: sum.splits)
  show "nodes' = path" by (rule n')
  show "path_get t' path = Some (PDict leaf)" by (rule add_data_at_path [OF ad])
next
  fix h
  show "map_of leaf (Some h) =
        map_of (rev (zip hdrs (map (\<lambda>d. PStr (serialize_value d)) data_cells))) h"
    unfolding leaf_def by (rule map_of_leaf)
next
  fix i assume "distinct hdrs" and i: "i < length hdrs \<and> i < length data_cells"
  then have "map_of (rev (zip hdrs (map (\<lambda>d. PStr (serialize_value d)) data_cells))) (hdrs ! i) =
        Some (map (\<lambda>d. PStr (serialize_value d)) data_cells ! i)"
    by (intro map_of_rev_zip_distinct) simp_all
  with i show "map_of leaf (Some (hdrs ! i)) = Some (PStr (serialize_value (data_cells ! i)))"
    unfolding leaf_def by (simp add: map_of_leaf)
qed

lemma leaf_rows_eval:
  "take (leading_spaces (serialize_value (value_cell 2 1 (VStr ''Assets'')))) [] @
     [strip (serialize_value (value_cell 2 1 (VStr ''Assets'')))] = [''Assets'']"
  "take (leading_spaces (serialize_value (value_cell 3 1 (VStr ''  Cash'')))) [''Assets''] @
     [strip (serialize_value (value_cell 3 1 (VStr ''  Cash'')))] = [''Assets'', ''Cash'']"
  "py_dict (zip (map Some [''Jan'', ''Feb''])
     (map (\<lambda>d. PStr (serialize_value d)) [value_cell 3 2 (VStr ''100''), value_cell 3 3 (VStr ''200'')])) =
     [(Some ''Jan'', PStr ''100''), (Some ''Feb'', PStr ''200'')]"
  "row_step [''Jan'', ''Feb''] ([''Assets''], [])
     [value_cell 3 1 (VStr ''  Cash''), value_cell 3 2 (VStr ''100''), value_cell 3 3 (VStr ''200'')] =
     Inr ([''Assets'', ''Cash''],
          [(Some ''Assets'',
            PDict [(Some ''Cash'', PDict [(Some ''Jan'', PStr ''100''), (Some ''Feb'', PStr ''200'')])])])"
  by code_simp+

text \<open>
  The statement C6 (amended) at a category row \<open>Assets\<close> without data and at a data row
  \<open>Cash\<close> below it.
\<close>

theorem row_step_leaf_witness:
  "row_step [''Jan'', ''Feb''] ([], [])
     [value_cell 2 1 (VStr ''Assets''), value_cell 2 2 VNone, value_cell 2 3 VNone] =
     Inr ([''Assets''], []) \<and>
   path_get
     [(Some ''Assets'',
       PDict [(Some ''Cash'', PDict [(Some ''Jan'', PStr ''100''), (Some ''Feb'', PStr ''200'')])])]
     [''Assets'', ''Cash''] =
     Some (PDict [(Some ''Jan'', PStr ''100''), (Some ''Feb'', PStr ''200'')])"
proof -
  have empty: "\<forall>c \<in> set [value_cell 2 2 VNone, value_cell 2 3 VNone]. cell_value c = VNone"
    by (simp add: value_cell_def)
  have a: "row_step [''Jan'', ''Feb''] ([], [])
     [value_cell 2 1 (VStr ''Assets''), value_cell 2 2 VNone, value_cell 2 3 VNone] =
     Inr ([''Assets''], [])"
    using row_step_leaf [OF refl, where hdrs = "[''Jan'', ''Feb'']" and nodes = "[]" and t = "[]"
          and ?c0.0 = "value_cell 2 1 (VStr ''Assets'')",
        THEN conjunct1, THEN mp, OF empty]
    unfolding leaf_rows_eval .
  have pop: "\<exists>c \<in> set [value_cell 3 2 (VStr ''100''), value_cell 3 3 (VStr ''200'')].
      cell_value c \<noteq> VNone"
    by (simp add: value_cell_def)
  have b: "path_get
     [(Some ''Assets'',
       PDict [(Some ''Cash'', PDict [(Some ''Jan'', PStr ''100''), (Some ''Feb'', PStr ''200'')])])]
     [''Assets'', ''Cash''] =
     Some (PDict [(Some ''Jan'', PStr ''100''), (Some ''Feb'', PStr ''200'')])"
    using row_step_leaf [OF refl, THEN conjunct2, THEN conjunct1, THEN mp, OF pop,
        THEN mp, OF leaf_rows_eval(4), THEN conjunct2]
    unfolding leaf_rows_eval .
  from a b show ?thesis by (rule conjI)
qed

text \<open>
  C6 as stated fails when two columns have the same header: with the headers \<open>X\<close>,
  \<open>X\<close> and the data cells \<open>1\<close>, \<open>2\<close> the leaf pairs header 0 with data cell 1.
\<close>

theorem duplicate_headers_counterexample:
  "map serialize_value (drop 1 (ws_row duplicate_example 1)) = [''X'', ''X''] \<and>
   map serialize_value (drop 1 (ws_row duplicate_example 2)) = [''1'', ''2''] \<and>
   process_hierarchical_table duplicate_example =
     Inr [(Some ''A'', PDict [(Some ''X'', PStr ''2'')])] \<and>
   map_of [(Some ''X'', PStr ''2'')] (Some ([''X'', ''X''] ! 0)) \<noteq> Some (PStr ([''1'', ''2''] ! 0))"
  by code_simp

section \<open>Hierarchical tables: levels and missing ancestors\<close>

text \<open>
  C2. The specification takes the level of a data row to be its count of leading spaces
  divided by the inferred indentation unit, so that labels with 0, 3, 3 and 6 leading spaces
  have the unit 3 and the levels 0, 1, 1 and 2. The source infers the unit 3 for them, but the
  level it uses for each row is the raw count of leading spaces, 0, 3, 3 and 6: the division
  by the unit is commented out. With the raw counts the third row \<open>C\<close> keeps the whole
  path of the second row \<open>B\<close> and is attached below it instead of beside it.
\<close>

theorem levels_not_divided_by_unit:
  "map (\<lambda>c. leading_spaces (serialize_value c)) (drop 1 (ws_first_column indent_example)) =
     [0, 3, 3, 6] \<and>
   num_leading_space_per_level indent_example = 3 \<and>
   map row_level (iter_rows indent_example 2) = [0, 3, 3, 6] \<and>
   process_hierarchical_table indent_example =
     Inr [(Some ''A'', PDict [(Some ''H'', PStr ''1''),
            (Some ''B'', PDict [(Some ''H'', PStr ''2''),
               (Some ''C'', PDict [(Some ''H'', PStr ''3''),
                  (Some ''D'', PDict [(Some ''H'', PStr ''4'')])])])])]"
  by code_simp

text \<open>
  C7. The specification says that an ancestor label missing from the tree is always recovered
  by a new empty branch and never raises. In this sub-grid the data row \<open>Z\<close> has the
  path \<open>A\<close>, \<open>X\<close>, \<open>Y\<close>, \<open>Z\<close>. \<open>A\<close> is a leaf that holds the
  text \<open>1\<close> under the column header \<open>X\<close>; the walk steps into that text, finds
  \<open>Y\<close> missing, and the assignment of the new branch on a text raises
  \<^verbatim>\<open>TypeError\<close> to the caller. (When the walk stays in dictionaries, the
  missing branches are created and the row is attached: \<open>add_data_at_missing\<close>.)
\<close>

theorem missing_ancestor_raises:
  "process_hierarchical_table orphan_example = Inl TypeError"
  by code_simp

section \<open>Hierarchical tables: the final cleanup\<close>

lemma row_step_top:
  assumes step: "row_step hdrs (nodes, t) row = Inr (nodes', t')"
    and nodes: "set nodes \<subseteq> L"
    and label: "row \<noteq> [] \<Longrightarrow> strip (serialize_value (hd row)) \<in> L"
    and top: "top_ok L t"
  shows "set nodes' \<subseteq> L \<and> top_ok L t'"
proof (cases row)
  case Nil
  with step show ?thesis by (simp add: row_step_def)
next
  case (Cons c0 data_cells)
  define ns where "ns = take (row_level row) nodes @ [strip (serialize_value c0)]"
  have ns_sub: "set ns \<subseteq> L"
    using nodes label Cons set_take_subset [of "row_level row" nodes] by (auto simp: ns_def)
  have ns_ne: "ns \<noteq> []" by (simp add: ns_def)
  then have hd_ns: "hd ns \<in> L" using ns_sub by (cases ns) auto
  show ?thesis
  proof (cases "filter (\<lambda>c. cell_value c \<noteq> VNone) data_cells \<noteq> []")
    case False
    with step Cons have "nodes' = ns" "t' = t"
      by (auto simp: row_step_def Let_def ns_def)
    with ns_sub top show ?thesis by simp
  next
    case True
    with step Cons have n': "nodes' = ns"
      and ad: "add_data t ns hdrs data_cells = Inr t'"
      by (auto simp: row_step_def Let_def ns_def split: sum.splits)
    have "top_ok L t'"
      unfolding top_ok_def
    proof (clarify)
      fix k v assume kv: "(k, v) \<in> set t'"
      from add_data_at_top [OF ad [unfolded add_data_def] kv]
      show "k \<in> Some ` L \<and> (\<exists>c. v = PDict c)"
        using top hd_ns by (auto simp: top_ok_def)
    qed
    with n' ns_sub show ?thesis by simp
  qed
qed

lemma process_rows_top:
  assumes "process_rows hdrs rows (nodes, t) = Inr (nodes', t')"
    and "set nodes \<subseteq> L"
    and "\<And>row. row \<in> set rows \<Longrightarrow> row \<noteq> [] \<Longrightarrow> strip (serialize_value (hd row)) \<in> L"
    and "top_ok L t"
  shows "top_ok L t'"
  using assms
proof (induction rows arbitrary: nodes t)
  case Nil
  then show ?case by simp
next
  case (Cons row rows)
  from Cons.prems(1) obtain n1 t1 where s1: "row_step hdrs (nodes, t) row = Inr (n1, t1)"
    and rest: "process_rows hdrs rows (n1, t1) = Inr (nodes', t')"
    by (auto split: sum.splits)
  have "set n1 \<subseteq> L \<and> top_ok L t1"
    by (rule row_step_top [OF s1 Cons.prems(2) _ Cons.prems(4)]) (simp add: Cons.prems(3))
  then show ?case
    using Cons.IH [OF rest] Cons.prems(3) by simp
qed

lemma drop_first_column:
  "drop 1 (ws_first_column ws) = map (\<lambda>r. sheet_cell ws r 1) [2 ..< ws_max_row ws + 1]"
proof -
  have "drop 1 [1 ..< ws_max_row ws + 1] = [2 ..< ws_max_row ws + 1]"
    by (simp add: drop_upt eval_nat_numeral)
  then show ?thesis
    by (simp add: ws_first_column_def drop_map del: upt_Suc)
qed

lemma hd_ws_row: "ws_row ws r \<noteq> [] \<Longrightarrow> hd (ws_row ws r) = sheet_cell ws r 1"
  by (cases "ws_max_column ws") (simp_all add: ws_row_def upt_rec [of "Suc 0"] del: upt_Suc)

lemma remove_none_top_ok: "top_ok L t \<Longrightarrow> remove_none_key_value_pairs t = t"
  by (auto simp: top_ok_def remove_none_key_value_pairs_def filter_id_conv)

text \<open>
  C10. Whenever the reconstruction of a Complex sub-grid completes, the final cleanup of the
  top level is the identity: the reconstructor returns the tree that the loop over the rows
  built, unchanged. Every top-level key of that tree is a text, the stripped serialized label
  of one of the data rows (never \<^verbatim>\<open>None\<close>), and every top-level value is a
  dictionary (never \<^verbatim>\<open>None\<close>), so no pair has both an absent key and an absent value.
\<close>

theorem cleanup_is_identity:
  assumes "build_table ws = Inr (nodes, t)"
  shows "process_hierarchical_table ws = Inr t \<and>
         remove_none_key_value_pairs t = t \<and>
         (\<forall>(k, v) \<in> set t.
            (\<exists>c \<in> set (drop 1 (ws_first_column ws)). k = Some (strip (serialize_value c))) \<and>
            (\<exists>d. v = PDict d))"
proof -
  define L where "L = (\<lambda>c. strip (serialize_value c)) ` set (drop 1 (ws_first_column ws))"
  have rows: "strip (serialize_value (hd row)) \<in> L"
    if "row \<in> set (iter_rows ws 2)" "row \<noteq> []" for row
  proof -
    from that(1) obtain r where r: "r \<in> set [2 ..< ws_max_row ws + 1]" "row = ws_row ws r"
      by (auto simp: iter_rows_def simp del: upt_Suc)
    with that(2) have "hd row = sheet_cell ws r 1" by (simp add: hd_ws_row)
    moreover have "sheet_cell ws r 1 \<in> set (drop 1 (ws_first_column ws))"
      using r(1) unfolding drop_first_column by (simp del: upt_Suc)
    ultimately show ?thesis by (simp add: L_def)
  qed
  have top: "top_ok L t"
    by (rule process_rows_top [OF assms [unfolded build_table_def Let_def] _ rows])
       (simp_all add: top_ok_def)
  have "remove_none_key_value_pairs t = t" by (rule remove_none_top_ok [OF top])
  moreover have "process_hierarchical_table ws = Inr t"
    using assms \<open>remove_none_key_value_pairs t = t\<close> by (simp add: process_hierarchical_table_def)
  moreover have "\<forall>(k, v) \<in> set t.
            (\<exists>c \<in> set (drop 1 (ws_first_column ws)). k = Some (strip (serialize_value c))) \<and>
            (\<exists>d. v = PDict d)"
    using top by (auto simp: top_ok_def L_def)
  ultimately show ?thesis by simp
qed

lemma leaf_example_build:
  "build_table leaf_example =
     Inr ([''Assets'', ''Cash''],
          [(Some ''Assets'',
            PDict [(Some ''Cash'', PDict [(Some ''Jan'', PStr ''100''), (Some ''Feb'', PStr ''200'')])])])"
  by code_simp

text \<open>
  The statement C10 at the sub-grid with the category row \<open>Assets\<close> and the data row
  \<open>Cash\<close>.
\<close>

theorem cleanup_is_identity_witness:
  "process_hierarchical_table leaf_example =
     Inr [(Some ''Assets'',
           PDict [(Some ''Cash'', PDict [(Some ''Jan'', PStr ''100''), (Some ''Feb'', PStr ''200'')])])] \<and>
   remove_none_key_value_pairs
     [(Some ''Assets'',
       PDict [(Some ''Cash'', PDict [(Some ''Jan'', PStr ''100''), (Some ''Feb'', PStr ''200'')])])] =
     [(Some ''Assets'',
       PDict [(Some ''Cash'', PDict [(Some ''Jan'', PStr ''100''), (Some ''Feb'', PStr ''200'')])])]"
  by (rule conjI [OF cleanup_is_identity [OF leaf_example_build, THEN conjunct1]
        cleanup_is_identity [OF leaf_example_build, THEN conjunct2, THEN conjunct1]])

section \<open>Table region detector: the closing corner scans\<close>

lemma cell_row_sheet_cell [simp]: "cell_row (sheet_cell sheet r c) = r"
  by (simp add: sheet_cell_def split: option.splits prod.splits)

lemma cell_column_sheet_cell [simp]: "cell_column (sheet_cell sheet r c) = c"
  by (simp add: sheet_cell_def split: option.splits prod.splits)

lemma scan_end_col_cases:
  "scan_end_col sheet r cols e = e \<or> (\<exists>c \<in> set cols. scan_end_col sheet r cols e = c - 1)"
  by (induction cols) auto

lemma scan_end_row_cases:
  "scan_end_row sheet ec rows e = e \<or> (\<exists>r \<in> set rows. scan_end_row sheet ec rows e = r - 1)"
  by (induction rows) auto

lemma find_end_col_bounds:
  "sc \<le> find_end_col sheet sr sc \<and> (sc < ws_max_column sheet \<longrightarrow> find_end_col sheet sr sc < ws_max_column sheet)"
  using scan_end_col_cases [of sheet sr "[sc + 1 ..< ws_max_column sheet + 1]" sc]
  by (auto simp: find_end_col_def simp del: upt_Suc)

lemma find_end_row_bounds:
  "sr \<le> find_end_row sheet sr ec \<and> (sr < MAX_ROW_IDX \<longrightarrow> find_end_row sheet sr ec < MAX_ROW_IDX)"
  using scan_end_row_cases [of sheet ec "[sr + 1 ..< MAX_ROW_IDX + 1]" sr]
  by (auto simp: find_end_row_def simp del: upt_Suc)

lemma scan_end_col_none:
  "\<forall>c \<in> set cols. \<not> has_top_right_border (sheet_cell sheet r (c - 1)) \<Longrightarrow>
   scan_end_col sheet r cols e = e"
  by (induction cols) auto

lemma scan_end_row_none:
  "\<forall>r \<in> set rows. \<not> has_bottom_right_border (sheet_cell sheet (r - 1) ec) \<Longrightarrow>
   scan_end_row sheet ec rows e = e"
  by (induction rows) auto

lemma find_end_col_none:
  assumes "\<forall>c. sc \<le> c \<and> c < ws_max_column sheet \<longrightarrow> \<not> has_top_right_border (sheet_cell sheet sr c)"
  shows "find_end_col sheet sr sc = sc"
  unfolding find_end_col_def
proof (rule scan_end_col_none, rule ballI)
  fix c assume "c \<in> set [sc + 1 ..< ws_max_column sheet + 1]"
  then have "sc \<le> c - 1 \<and> c - 1 < ws_max_column sheet" by auto
  with assms show "\<not> has_top_right_border (sheet_cell sheet sr (c - 1))" by blast
qed

lemma find_end_row_none:
  assumes "\<forall>r. sr \<le> r \<and> r < MAX_ROW_IDX \<longrightarrow> \<not> has_bottom_right_border (sheet_cell sheet r ec)"
  shows "find_end_row sheet sr ec = sr"
  unfolding find_end_row_def
proof (rule scan_end_row_none, rule ballI)
  fix r assume "r \<in> set [sr + 1 ..< MAX_ROW_IDX + 1]"
  then have "sr \<le> r - 1 \<and> r - 1 < MAX_ROW_IDX" by auto
  with assms show "\<not> has_bottom_right_border (sheet_cell sheet (r - 1) ec)" by blast
qed

section \<open>Table region detector: the visited mask\<close>

lemma visited_get_ok:
  assumes "mask_ok mc vis" "r < MAX_ROW_IDX" "c < mc"
  shows "visited_get vis r c = Inr (vis ! r ! c)"
  using assms by (auto simp: visited_get_def mask_ok_def)

lemma visited_set_ok:
  assumes "mask_ok mc vis" "r < MAX_ROW_IDX" "c < mc"
  shows "\<exists>vis'. visited_set vis r c = Inr vis' \<and> mask_ok mc vis' \<and>
           (\<forall>r' c'. r' < MAX_ROW_IDX \<longrightarrow> c' < mc \<longrightarrow>
              vis' ! r' ! c' = (vis ! r' ! c' \<or> (r' = r \<and> c' = c)))"
proof -
  from assms have len: "r < length vis" "c < length (vis ! r)"
    by (auto simp: mask_ok_def)
  define vis' where "vis' = vis[r := (vis ! r)[c := True]]"
  have "visited_set vis r c = Inr vis'"
    using len by (simp add: visited_set_def vis'_def)
  moreover have "mask_ok mc vis'"
    using assms(1) len set_update_subset_insert [of vis r "(vis ! r)[c := True]"]
    by (auto simp: mask_ok_def vis'_def)
  moreover have "vis' ! r' ! c' = (vis ! r' ! c' \<or> (r' = r \<and> c' = c))"
    if "r' < MAX_ROW_IDX" "c' < mc" for r' c'
  proof -
    from that assms(1) have "r' < length vis" "c' < length (vis ! r')"
      by (auto simp: mask_ok_def)
    with len show ?thesis
      by (cases "r' = r"; cases "c' = c"; simp add: vis'_def nth_list_update)
  qed
  ultimately show ?thesis by blast
qed

lemma mark_cells_ok:
  assumes "mask_ok mc vis" "\<forall>(r, c) \<in> set cells. r < MAX_ROW_IDX \<and> c < mc"
  shows "\<exists>vis'. mark_cells sheet sr sc cells (vis, ws) = Inr (vis', copy_cells sheet sr sc cells ws) \<and>
           mask_ok mc vis' \<and>
           (\<forall>r c. r < MAX_ROW_IDX \<longrightarrow> c < mc \<longrightarrow> vis' ! r ! c = (vis ! r ! c \<or> (r, c) \<in> set cells))"
  using assms
proof (induction cells arbitrary: vis ws)
  case Nil
  then show ?case by simp
next
  case (Cons p cells)
  obtain r c where p: "p = (r, c)" by (cases p)
  with Cons.prems have rc: "r < MAX_ROW_IDX" "c < mc" by auto
  from visited_set_ok [OF Cons.prems(1) rc] obtain v1 where
    v1: "visited_set vis r c = Inr v1" "mask_ok mc v1"
    "\<forall>r' c'. r' < MAX_ROW_IDX \<longrightarrow> c' < mc \<longrightarrow> v1 ! r' ! c' = (vis ! r' ! c' \<or> (r' = r \<and> c' = c))"
    by blast
  have rest: "\<forall>(r, c) \<in> set cells. r < MAX_ROW_IDX \<and> c < mc"
    using Cons.prems(2) by simp
  from Cons.IH [OF v1(2) rest, of "ws_set_value ws (r - sr + 1) (c - sc + 1) (cell_value (sheet_cell sheet r c))"]
  obtain v2 where v2: "mark_cells sheet sr sc cells
       (v1, ws_set_value ws (r - sr + 1) (c - sc + 1) (cell_value (sheet_cell sheet r c))) =
       Inr (v2, copy_cells sheet sr sc cells
          (ws_set_value ws (r - sr + 1) (c - sc + 1) (cell_value (sheet_cell sheet r c))))"
    "mask_ok mc v2"
    "\<forall>r c. r < MAX_ROW_IDX \<longrightarrow> c < mc \<longrightarrow> v2 ! r ! c = (v1 ! r ! c \<or> (r, c) \<in> set cells)"
    by blast
  have "mark_cells sheet sr sc (p # cells) (vis, ws) = Inr (v2, copy_cells sheet sr sc (p # cells) ws)"
    using v1(1) v2(1) by (simp add: p)
  moreover have "\<forall>r' c'. r' < MAX_ROW_IDX \<longrightarrow> c' < mc \<longrightarrow>
      v2 ! r' ! c' = (vis ! r' ! c' \<or> (r', c') \<in> set (p # cells))"
    using v1(3) v2(3) by (auto simp: p)
  ultimately show ?case using v2(2) by blast
qed

lemma mark_cells_visited_ok:
  assumes "mask_ok mc vis" "er < MAX_ROW_IDX" "ec < mc"
  shows "\<exists>vis'. mark_cells_visited sheet vis sr sc er ec =
             Inr (vis', extract_subgrid sheet \<lparr>startRow = sr, startCol = sc, endRow = er, endCol = ec\<rparr>) \<and>
           mask_ok mc vis' \<and>
           (\<forall>r c. r < MAX_ROW_IDX \<longrightarrow> c < mc \<longrightarrow>
              vis' ! r ! c = (vis ! r ! c \<or> (sr \<le> r \<and> r \<le> er \<and> sc \<le> c \<and> c \<le> ec)))"
proof -
  have "\<forall>(r, c) \<in> set (List.product [sr ..< er + 1] [sc ..< ec + 1]). r < MAX_ROW_IDX \<and> c < mc"
    using assms(2,3) by (auto simp del: upt_Suc)
  from mark_cells_ok [OF assms(1) this, of sheet sr sc new_worksheet]
  show ?thesis
    by (auto simp: mark_cells_visited_def extract_subgrid_def simp del: upt_Suc)
qed

section \<open>Table region detector: the invariant of the scan\<close>

lemma corners_apart_append:
  "corners_apart (rs @ [rg]) =
     (corners_apart rs \<and> (\<forall>rg' \<in> set rs. \<not> in_range rg' (startRow rg) (startCol rg)))"
  by (induction rs) auto

lemma corners_apart_nth:
  "corners_apart rs \<Longrightarrow> i < j \<Longrightarrow> j < length rs \<Longrightarrow>
   \<not> in_range (rs ! i) (startRow (rs ! j)) (startCol (rs ! j))"
proof (induction rs arbitrary: i j)
  case Nil
  then show ?case by simp
next
  case (Cons rg rs)
  show ?case
  proof (cases i)
    case 0
    with Cons.prems obtain j' where j': "j = Suc j'" "j' < length rs"
      by (cases j) auto
    then have "rs ! j' \<in> set rs" by simp
    with Cons.prems(1) 0 j' show ?thesis by auto
  next
    case (Suc i')
    with Cons.prems obtain j' where j': "j = Suc j'" "i' < j'" "j' < length rs"
      by (cases j) auto
    with Cons.IH [of i' j'] Cons.prems(1) Suc show ?thesis by simp
  qed
qed

lemma detected_in_mask:
  assumes "detected sheet rg" "in_range rg r c"
  shows "r < MAX_ROW_IDX \<and> c < ws_max_column sheet"
proof -
  from assms(1) have "endCol rg < ws_max_column sheet"
    using find_end_col_bounds [of "startCol rg" sheet "startRow rg"] by (simp add: detected_def)
  moreover from assms(1) have "endRow rg < MAX_ROW_IDX"
    using find_end_row_bounds [of "startRow rg" sheet "endCol rg"] by (simp add: detected_def)
  ultimately show ?thesis using assms(2) by (simp add: in_range_def)
qed

lemma detect_table_inv:
  assumes inv: "scan_inv sheet st"
    and r: "45 \<le> r" "r < MAX_ROW_IDX" and c: "1 \<le> c" "c < ws_max_column sheet"
    and ul: "has_upper_left_border (sheet_cell sheet r c)"
    and unv: "\<not> visited st ! r ! c"
  shows "\<exists>st'. detect_table sheet (sheet_cell sheet r c) st = Inr st' \<and> scan_inv sheet st'"
proof -
  define ec where "ec = find_end_col sheet r c"
  define er where "er = find_end_row sheet r ec"
  define rg where "rg = \<lparr>startRow = r, startCol = c, endRow = er, endCol = ec\<rparr>"
  have ecb: "c \<le> ec" "ec < ws_max_column sheet"
    using find_end_col_bounds [of c sheet r] c by (simp_all add: ec_def)
  have erb: "r \<le> er" "er < MAX_ROW_IDX"
    using find_end_row_bounds [of r sheet ec] r by (simp_all add: er_def)
  from inv have mask: "mask_ok (ws_max_column sheet) (visited st)"
    and det: "\<forall>rg \<in> set (table_ranges st). detected sheet rg"
    and vis: "\<forall>rg \<in> set (table_ranges st). \<forall>r c. in_range rg r c \<longrightarrow> visited st ! r ! c"
    and apart: "corners_apart (table_ranges st)"
    and simple: "simple_table_workbooks st =
        map (extract_subgrid sheet) (filter (\<lambda>rg. \<not> corner_empty sheet rg) (table_ranges st))"
    and complex: "complex_table_workbooks st =
        map (extract_subgrid sheet) (filter (corner_empty sheet) (table_ranges st))"
    and flag: "\<not> is_complex st"
    by (simp_all add: scan_inv_def)
  from mark_cells_visited_ok [OF mask erb(2) ecb(2), of sheet r c] obtain vis' where
    mk: "mark_cells_visited sheet (visited st) r c er ec = Inr (vis', extract_subgrid sheet rg)"
    and mask': "mask_ok (ws_max_column sheet) vis'"
    and vis': "\<forall>r' c'. r' < MAX_ROW_IDX \<longrightarrow> c' < ws_max_column sheet \<longrightarrow>
              vis' ! r' ! c' = (visited st ! r' ! c' \<or> (r \<le> r' \<and> r' \<le> er \<and> c \<le> c' \<and> c' \<le> ec))"
    unfolding rg_def by blast
  define st' where "st' =
     (if is_empty_cell (sheet_cell sheet r c)
      then st\<lparr>table_ranges := table_ranges st @ [rg],
              complex_table_workbooks := complex_table_workbooks st @ [extract_subgrid sheet rg],
              visited := vis', is_complex := False\<rparr>
      else st\<lparr>table_ranges := table_ranges st @ [rg],
              simple_table_workbooks := simple_table_workbooks st @ [extract_subgrid sheet rg],
              visited := vis', is_complex := False\<rparr>)"
  have res: "detect_table sheet (sheet_cell sheet r c) st = Inr st'"
    using mk flag
    by (simp add: detect_table_def Let_def ec_def [symmetric] er_def [symmetric]
          rg_def [symmetric] st'_def)
  have tr: "table_ranges st' = table_ranges st @ [rg]"
    and v': "visited st' = vis'" and fl: "\<not> is_complex st'"
    by (simp_all add: st'_def)
  have det_rg: "detected sheet rg"
    using r c ul by (simp add: detected_def rg_def ec_def er_def)
  have d1: "\<forall>rg \<in> set (table_ranges st'). detected sheet rg"
    using det det_rg by (simp add: tr)
  have d2: "\<forall>rg' \<in> set (table_ranges st'). \<forall>r c. in_range rg' r c \<longrightarrow> visited st' ! r ! c"
  proof (intro ballI allI impI)
    fix rg' r0 c0 assume mem: "rg' \<in> set (table_ranges st')" and ir: "in_range rg' r0 c0"
    from mem d1 have "detected sheet rg'" by blast
    from detected_in_mask [OF this ir] have b: "r0 < MAX_ROW_IDX" "c0 < ws_max_column sheet"
      by simp_all
    from mem have "rg' \<in> set (table_ranges st) \<or> rg' = rg" by (auto simp: tr)
    then show "visited st' ! r0 ! c0"
    proof
      assume "rg' \<in> set (table_ranges st)"
      with vis ir have "visited st ! r0 ! c0" by blast
      with vis' b show ?thesis by (simp add: v')
    next
      assume "rg' = rg"
      with ir have "r \<le> r0 \<and> r0 \<le> er \<and> c \<le> c0 \<and> c0 \<le> ec"
        by (simp add: in_range_def rg_def)
      with vis' b show ?thesis by (simp add: v')
    qed
  qed
  have d3: "corners_apart (table_ranges st')"
    unfolding tr corners_apart_append
  proof (intro conjI ballI)
    show "corners_apart (table_ranges st)" by (rule apart)
  next
    fix rg' assume "rg' \<in> set (table_ranges st)"
    with vis unv show "\<not> in_range rg' (startRow rg) (startCol rg)"
      by (auto simp: rg_def)
  qed
  have ce: "corner_empty sheet rg = is_empty_cell (sheet_cell sheet r c)"
    by (simp add: corner_empty_def rg_def)
  have d4: "simple_table_workbooks st' =
        map (extract_subgrid sheet) (filter (\<lambda>rg. \<not> corner_empty sheet rg) (table_ranges st'))"
    using simple by (simp add: st'_def ce)
  have d5: "complex_table_workbooks st' =
        map (extract_subgrid sheet) (filter (corner_empty sheet) (table_ranges st'))"
    using complex by (simp add: st'_def ce)
  have "scan_inv sheet st'"
    unfolding scan_inv_def using mask' d1 d2 d3 d4 d5 fl by (simp add: v')
  with res show ?thesis by blast
qed

lemma col_loop_inv:
  "scan_inv sheet st \<Longrightarrow> row_idx < MAX_ROW_IDX \<Longrightarrow> 1 \<le> col_idx \<Longrightarrow>
   \<exists>st'. col_loop sheet row_idx col_idx st = Inr st' \<and> scan_inv sheet st'"
proof (induction sheet row_idx col_idx st rule: col_loop.induct)
  case (1 sheet row_idx col_idx st)
  show ?case
  proof (cases "col_idx < ws_max_column sheet")
    case False
    with "1.prems"(1) show ?thesis by (simp add: col_loop.simps [of sheet row_idx col_idx])
  next
    case True
    from "1.prems"(1) have mask: "mask_ok (ws_max_column sheet) (visited st)"
      by (simp add: scan_inv_def)
    have vg: "visited_get (visited st) row_idx col_idx = Inr (visited st ! row_idx ! col_idx)"
      by (rule visited_get_ok [OF mask "1.prems"(2) True])
    show ?thesis
    proof (cases "visited st ! row_idx ! col_idx \<or> row_idx < 45")
      case skip: True
      have "\<exists>st'. col_loop sheet row_idx (col_idx + 1) st = Inr st' \<and> scan_inv sheet st'"
        by (rule "1.IH"(1) [OF True vg skip "1.prems"(1,2)]) simp
      with True vg skip show ?thesis
        by (simp add: col_loop.simps [of sheet row_idx col_idx])
    next
      case noskip: False
      show ?thesis
      proof (cases "has_upper_left_border (sheet_cell sheet row_idx col_idx)")
        case ul: True
        from noskip have "45 \<le> row_idx" "\<not> visited st ! row_idx ! col_idx" by simp_all
        from detect_table_inv [OF "1.prems"(1) this(1) "1.prems"(2,3) True ul this(2)]
        obtain st1 where st1: "detect_table sheet (sheet_cell sheet row_idx col_idx) st = Inr st1"
          "scan_inv sheet st1" by blast
        have "\<exists>st'. col_loop sheet row_idx (col_idx + 1) st1 = Inr st' \<and> scan_inv sheet st'"
          by (rule "1.IH"(2) [OF True vg noskip ul st1(1) st1(2) "1.prems"(2)]) simp
        with True vg noskip ul st1(1) show ?thesis
          by (simp add: col_loop.simps [of sheet row_idx col_idx])
      next
        case noul: False
        have "\<exists>st'. col_loop sheet row_idx (col_idx + 1) st = Inr st' \<and> scan_inv sheet st'"
          by (rule "1.IH"(3) [OF True vg noskip noul "1.prems"(1,2)]) simp
        with True vg noskip noul show ?thesis
          by (simp add: col_loop.simps [of sheet row_idx col_idx])
      qed
    qed
  qed
qed

lemma row_loop_inv:
  "scan_inv sheet st \<Longrightarrow> 1 \<le> row_idx \<Longrightarrow>
   \<exists>st'. row_loop sheet row_idx st = Inr st' \<and> scan_inv sheet st'"
proof (induction sheet row_idx st rule: row_loop.induct)
  case (1 sheet row_idx st)
  show ?case
  proof (cases "row_idx < MAX_ROW_IDX")
    case False
    with "1.prems"(1) show ?thesis by (simp add: row_loop.simps [of sheet row_idx])
  next
    case True
    from "1.prems"(1) have eq: "st\<lparr>is_complex := False\<rparr> = st"
      by (simp add: scan_inv_def)
    from col_loop_inv [OF "1.prems"(1) True, of 1] obtain st1 where
      st1: "col_loop sheet row_idx 1 st = Inr st1" "scan_inv sheet st1" by auto
    have "\<exists>st'. row_loop sheet (row_idx + 1) st1 = Inr st' \<and> scan_inv sheet st'"
      by (rule "1.IH" [OF True _ st1(2)]) (use st1(1) in \<open>simp_all add: eq\<close>)
    with True st1(1) show ?thesis
      by (simp add: row_loop.simps [of sheet row_idx] eq)
  qed
qed

lemma initial_state_inv: "scan_inv sheet (initial_state sheet)"
  by (simp add: scan_inv_def initial_state_def mask_ok_def)

lemma get_table_ranges_inv:
  "\<exists>st. get_table_ranges sheet =
          Inr (table_ranges st, simple_table_workbooks st, complex_table_workbooks st) \<and>
        scan_inv sheet st"
proof -
  from row_loop_inv [OF initial_state_inv, of 1 sheet] obtain st where
    "row_loop sheet 1 (initial_state sheet) = Inr st" "scan_inv sheet st" by auto
  then show ?thesis by (auto simp: get_table_ranges_def)
qed

lemma get_table_ranges_Inr:
  assumes "get_table_ranges sheet = Inr (ranges, simple, complex)"
  shows "\<exists>st. scan_inv sheet st \<and> table_ranges st = ranges \<and>
           simple_table_workbooks st = simple \<and> complex_table_workbooks st = complex"
  using get_table_ranges_inv [of sheet] assms by auto

lemma map_sum_fst_Inr:
  "map_sum id fst x = Inr rs \<Longrightarrow> \<exists>s c. x = Inr (rs, s, c)"
  by (cases x) auto

lemma unclosed_example_ranges:
  "map_sum id fst (get_table_ranges unclosed_example) =
     Inr [\<lparr>startRow = 45, startCol = 1, endRow = 45, endCol = 1\<rparr>]"
  by code_simp

lemma unclosed_example_no_marker:
  "\<not> has_top_right_border (sheet_cell unclosed_example r c)"
  "\<not> has_bottom_right_border (sheet_cell unclosed_example r c)"
  by (simp_all add: unclosed_example_def sheet_of_cells_def sheet_cell_def edges_def
        has_top_right_border_def has_bottom_right_border_def no_border_def)

lemma overlap_example_ranges:
  "map_sum id fst (get_table_ranges overlap_example) =
     Inr [\<lparr>startRow = 45, startCol = 3, endRow = 46, endCol = 3\<rparr>,
          \<lparr>startRow = 46, startCol = 1, endRow = 46, endCol = 3\<rparr>]"
  by code_simp

lemma overlap_example_filters:
  "filter (\<lambda>rg. \<not> is_empty_cell (sheet_cell overlap_example (startRow rg) (startCol rg)))
     [\<lparr>startRow = 45, startCol = 3, endRow = 46, endCol = 3\<rparr>,
      \<lparr>startRow = 46, startCol = 1, endRow = 46, endCol = 3\<rparr>] =
     [\<lparr>startRow = 46, startCol = 1, endRow = 46, endCol = 3\<rparr>]"
  "filter (\<lambda>rg. is_empty_cell (sheet_cell overlap_example (startRow rg) (startCol rg)))
     [\<lparr>startRow = 45, startCol = 3, endRow = 46, endCol = 3\<rparr>,
      \<lparr>startRow = 46, startCol = 1, endRow = 46, endCol = 3\<rparr>] =
     [\<lparr>startRow = 45, startCol = 3, endRow = 46, endCol = 3\<rparr>]"
  by code_simp+

lemma extract_example:
  "ws_max_row (extract_subgrid overlap_example \<lparr>startRow = 45, startCol = 3, endRow = 46, endCol = 3\<rparr>) = 2"
  "ws_max_column (extract_subgrid overlap_example \<lparr>startRow = 46, startCol = 1, endRow = 46, endCol = 3\<rparr>) = 3"
  "map cell_value (ws_row (extract_subgrid overlap_example \<lparr>startRow = 46, startCol = 1, endRow = 46, endCol = 3\<rparr>) 1)
     = [VStr ''y'', VNone, VStr ''x'']"
  by code_simp+

section \<open>Table region detector: where a region can start\<close>

text \<open>
  C9. Every region that the detector emits has its upper-left corner in a row between 45 and
  99 and in a column from 1 to one less than the last column of the grid. So no region starts
  at a position in the first 44 rows, at or beyond row 100, or in (or beyond) the last column.
\<close>

theorem corner_scan_window:
  assumes "get_table_ranges sheet = Inr (ranges, simple, complex)"
  shows "(\<forall>rg \<in> set ranges.
            45 \<le> startRow rg \<and> startRow rg \<le> 99 \<and>
            1 \<le> startCol rg \<and> startCol rg < ws_max_column sheet) \<and>
         (\<forall>r c. r < 45 \<or> 100 \<le> r \<or> ws_max_column sheet \<le> c \<longrightarrow>
            (\<forall>rg \<in> set ranges. \<not> (startRow rg = r \<and> startCol rg = c)))"
proof -
  from get_table_ranges_Inr [OF assms] obtain st where
    "scan_inv sheet st" "table_ranges st = ranges" by blast
  then have "\<forall>rg \<in> set ranges. detected sheet rg"
    by (auto simp: scan_inv_def)
  then have b: "\<forall>rg \<in> set ranges.
            45 \<le> startRow rg \<and> startRow rg \<le> 99 \<and>
            1 \<le> startCol rg \<and> startCol rg < ws_max_column sheet"
    by (auto simp: detected_def MAX_ROW_IDX_def)
  then show ?thesis by fastforce
qed

text \<open>
  The statement C9 at the sheet with one corner at row 45, column 1.
\<close>

theorem corner_scan_window_witness:
  "(\<exists>simple complex. get_table_ranges unclosed_example =
       Inr ([\<lparr>startRow = 45, startCol = 1, endRow = 45, endCol = 1\<rparr>], simple, complex)) \<and>
   45 \<le> startRow \<lparr>startRow = 45, startCol = 1, endRow = 45, endCol = 1\<rparr> \<and>
   startRow \<lparr>startRow = 45, startCol = 1, endRow = 45, endCol = 1\<rparr> \<le> 99 \<and>
   startCol \<lparr>startRow = 45, startCol = 1, endRow = 45, endCol = 1\<rparr> < ws_max_column unclosed_example"
proof -
  define rg where "rg = \<lparr>startRow = 45, startCol = 1, endRow = 45, endCol = 1\<rparr>"
  from map_sum_fst_Inr [OF unclosed_example_ranges] obtain s c where
    res: "get_table_ranges unclosed_example = Inr ([rg], s, c)"
    unfolding rg_def by blast
  have mem: "rg \<in> set [rg]" by simp
  from corner_scan_window [OF res, THEN conjunct1, rule_format, OF mem]
  have "45 \<le> startRow rg \<and> startRow rg \<le> 99 \<and> startCol rg < ws_max_column unclosed_example"
    by blast
  with res show ?thesis unfolding rg_def by blast
qed

section \<open>Table region detector: regions of one scan\<close>

text \<open>
  C4, amended. Every region that one scan emits satisfies startRow \<open>\<le>\<close> endRow and
  startCol \<open>\<le>\<close> endCol, and the upper-left corner of a region lies in no region emitted
  earlier in the same scan: the visited mask is consulted for the corner cell only.
\<close>

theorem corners_outside_earlier_regions:
  assumes "get_table_ranges sheet = Inr (ranges, simple, complex)"
  shows "(\<forall>rg \<in> set ranges. startRow rg \<le> endRow rg \<and> startCol rg \<le> endCol rg) \<and>
         (\<forall>i j. i < j \<and> j < length ranges \<longrightarrow>
            \<not> in_range (ranges ! i) (startRow (ranges ! j)) (startCol (ranges ! j)))"
proof -
  from get_table_ranges_Inr [OF assms] obtain st where
    st: "scan_inv sheet st" "table_ranges st = ranges" by blast
  have "startRow rg \<le> endRow rg \<and> startCol rg \<le> endCol rg" if "rg \<in> set ranges" for rg
  proof -
    from st that have "detected sheet rg" by (auto simp: scan_inv_def)
    then show ?thesis
      using find_end_col_bounds [of "startCol rg" sheet "startRow rg"]
        find_end_row_bounds [of "startRow rg" sheet "endCol rg"]
      by (simp add: detected_def)
  qed
  moreover from st have "corners_apart ranges" by (auto simp: scan_inv_def)
  ultimately show ?thesis using corners_apart_nth by blast
qed

text \<open>
  The statement C4 (amended) at the sheet with two regions: the corner (46, 1) of the second
  lies outside the first.
\<close>

theorem corners_outside_earlier_regions_witness:
  "(\<exists>simple complex. get_table_ranges overlap_example =
       Inr ([\<lparr>startRow = 45, startCol = 3, endRow = 46, endCol = 3\<rparr>,
             \<lparr>startRow = 46, startCol = 1, endRow = 46, endCol = 3\<rparr>], simple, complex)) \<and>
   \<not> in_range \<lparr>startRow = 45, startCol = 3, endRow = 46, endCol = 3\<rparr> 46 1 \<and>
   startRow \<lparr>startRow = 45, startCol = 3, endRow = 46, endCol = 3\<rparr> \<le>
     endRow \<lparr>startRow = 45, startCol = 3, endRow = 46, endCol = 3\<rparr>"
proof -
  define r1 where "r1 = \<lparr>startRow = 45, startCol = 3, endRow = 46, endCol = 3\<rparr>"
  define r2 where "r2 = \<lparr>startRow = 46, startCol = 1, endRow = 46, endCol = 3\<rparr>"
  from map_sum_fst_Inr [OF overlap_example_ranges] obtain s c where
    res: "get_table_ranges overlap_example = Inr ([r1, r2], s, c)"
    unfolding r1_def r2_def by blast
  note th = corners_outside_earlier_regions [OF res]
  have "0 < (1::nat) \<and> 1 < length [r1, r2]" by simp
  from th [THEN conjunct2, rule_format, OF this]
  have a: "\<not> in_range r1 46 1" by (simp add: r2_def)
  have "r1 \<in> set [r1, r2]" by simp
  from th [THEN conjunct1, rule_format, OF this]
  have b: "startRow r1 \<le> endRow r1" by blast
  from res a b show ?thesis unfolding r1_def r2_def by blast
qed

text \<open>
  C4 as stated fails: on this sheet one scan emits the regions C45:C46 and A46:C46, and both
  contain the cell at row 46, column 3.
\<close>

theorem overlapping_regions_counterexample:
  "map_sum id fst (get_table_ranges overlap_example) =
     Inr [\<lparr>startRow = 45, startCol = 3, endRow = 46, endCol = 3\<rparr>,
          \<lparr>startRow = 46, startCol = 1, endRow = 46, endCol = 3\<rparr>] \<and>
   in_range \<lparr>startRow = 45, startCol = 3, endRow = 46, endCol = 3\<rparr> 46 3 \<and>
   in_range \<lparr>startRow = 46, startCol = 1, endRow = 46, endCol = 3\<rparr> 46 3"
  by code_simp

section \<open>Table region detector: classification\<close>

text \<open>
  C5. The sub-grids returned as Simple are, in scan order, the extracted sub-grids of exactly
  the emitted regions whose upper-left corner cell has a value, and those returned as Complex
  the extracted sub-grids of exactly the regions whose corner cell is empty. Every region goes
  to one of the two lists, and nothing but the corner cell decides to which.
\<close>

theorem classification_by_corner:
  assumes "get_table_ranges sheet = Inr (ranges, simple, complex)"
  shows "simple = map (extract_subgrid sheet)
           (filter (\<lambda>rg. \<not> is_empty_cell (sheet_cell sheet (startRow rg) (startCol rg))) ranges) \<and>
         complex = map (extract_subgrid sheet)
           (filter (\<lambda>rg. is_empty_cell (sheet_cell sheet (startRow rg) (startCol rg))) ranges) \<and>
         length simple + length complex = length ranges"
proof -
  from get_table_ranges_Inr [OF assms] obtain st where
    st: "scan_inv sheet st" "table_ranges st = ranges"
    "simple_table_workbooks st = simple" "complex_table_workbooks st = complex" by blast
  have ce: "corner_empty sheet = (\<lambda>rg. is_empty_cell (sheet_cell sheet (startRow rg) (startCol rg)))"
    by (simp add: corner_empty_def fun_eq_iff)
  from st have s: "simple = map (extract_subgrid sheet)
           (filter (\<lambda>rg. \<not> is_empty_cell (sheet_cell sheet (startRow rg) (startCol rg))) ranges)"
    and c: "complex = map (extract_subgrid sheet)
           (filter (\<lambda>rg. is_empty_cell (sheet_cell sheet (startRow rg) (startCol rg))) ranges)"
    by (auto simp: scan_inv_def ce)
  have "length simple + length complex = length ranges"
    unfolding s c length_map
    using sum_length_filter_compl
      [of "\<lambda>rg. is_empty_cell (sheet_cell sheet (startRow rg) (startCol rg))" ranges]
    by simp
  with s c show ?thesis by blast
qed

text \<open>
  The statement C5 at the sheet with two regions: the first has an empty corner and is
  Complex, the second a corner with a value and is Simple.
\<close>

theorem classification_by_corner_witness:
  "get_table_ranges overlap_example =
     Inr ([\<lparr>startRow = 45, startCol = 3, endRow = 46, endCol = 3\<rparr>,
           \<lparr>startRow = 46, startCol = 1, endRow = 46, endCol = 3\<rparr>],
          [extract_subgrid overlap_example \<lparr>startRow = 46, startCol = 1, endRow = 46, endCol = 3\<rparr>],
          [extract_subgrid overlap_example \<lparr>startRow = 45, startCol = 3, endRow = 46, endCol = 3\<rparr>])"
proof -
  from map_sum_fst_Inr [OF overlap_example_ranges] obtain s c where
    res: "get_table_ranges overlap_example =
       Inr ([\<lparr>startRow = 45, startCol = 3, endRow = 46, endCol = 3\<rparr>,
             \<lparr>startRow = 46, startCol = 1, endRow = 46, endCol = 3\<rparr>], s, c)"
    by blast
  from classification_by_corner [OF res, unfolded overlap_example_filters]
  have "s = [extract_subgrid overlap_example \<lparr>startRow = 46, startCol = 1, endRow = 46, endCol = 3\<rparr>]"
    "c = [extract_subgrid overlap_example \<lparr>startRow = 45, startCol = 3, endRow = 46, endCol = 3\<rparr>]"
    by simp_all
  with res show ?thesis by simp
qed

section \<open>Table region detector: regions without a closing corner\<close>

text \<open>
  C1, amended. The detector returns on every sheet: no index of the visited mask is ever out
  of range. For every emitted region, if no cell of the start row from the start column to
  the column before the last has the top-right marker, endCol is the start column; and if no
  cell of column endCol from the start row to row 99 has the bottom-right marker, endRow is
  the start row. The unclosed region is emitted as it is.
\<close>

theorem unclosed_region_keeps_start:
  "(\<exists>ranges simple complex. get_table_ranges sheet = Inr (ranges, simple, complex)) \<and>
   (\<forall>ranges simple complex. get_table_ranges sheet = Inr (ranges, simple, complex) \<longrightarrow>
      (\<forall>rg \<in> set ranges.
         ((\<forall>c. startCol rg \<le> c \<and> c < ws_max_column sheet \<longrightarrow>
               \<not> has_top_right_border (sheet_cell sheet (startRow rg) c)) \<longrightarrow>
            endCol rg = startCol rg) \<and>
         ((\<forall>r. startRow rg \<le> r \<and> r < MAX_ROW_IDX \<longrightarrow>
               \<not> has_bottom_right_border (sheet_cell sheet r (endCol rg))) \<longrightarrow>
            endRow rg = startRow rg)))"
proof (intro conjI allI impI ballI)
  show "\<exists>ranges simple complex. get_table_ranges sheet = Inr (ranges, simple, complex)"
    using get_table_ranges_inv [of sheet] by blast
next
  fix ranges simple complex rg
  assume res: "get_table_ranges sheet = Inr (ranges, simple, complex)" and rg: "rg \<in> set ranges"
  from get_table_ranges_Inr [OF res] rg have det: "detected sheet rg"
    by (auto simp: scan_inv_def)
  {
    assume "\<forall>c. startCol rg \<le> c \<and> c < ws_max_column sheet \<longrightarrow>
               \<not> has_top_right_border (sheet_cell sheet (startRow rg) c)"
    from find_end_col_none [OF this] det show "endCol rg = startCol rg"
      by (simp add: detected_def)
  }
  {
    assume "\<forall>r. startRow rg \<le> r \<and> r < MAX_ROW_IDX \<longrightarrow>
               \<not> has_bottom_right_border (sheet_cell sheet r (endCol rg))"
    from find_end_row_none [OF this] det show "endRow rg = startRow rg"
      by (simp add: detected_def)
  }
qed

text \<open>
  The statement C1 (amended) at the sheet with one corner and no closing marker: the region
  is the corner cell alone.
\<close>

theorem unclosed_region_keeps_start_witness:
  "(\<exists>simple complex. get_table_ranges unclosed_example =
       Inr ([\<lparr>startRow = 45, startCol = 1, endRow = 45, endCol = 1\<rparr>], simple, complex)) \<and>
   endCol \<lparr>startRow = 45, startCol = 1, endRow = 45, endCol = 1\<rparr> =
     startCol \<lparr>startRow = 45, startCol = 1, endRow = 45, endCol = 1\<rparr> \<and>
   endRow \<lparr>startRow = 45, startCol = 1, endRow = 45, endCol = 1\<rparr> =
     startRow \<lparr>startRow = 45, startCol = 1, endRow = 45, endCol = 1\<rparr>"
proof -
  define rg where "rg = \<lparr>startRow = 45, startCol = 1, endRow = 45, endCol = 1\<rparr>"
  from map_sum_fst_Inr [OF unclosed_example_ranges] obtain s c where
    res: "get_table_ranges unclosed_example = Inr ([rg], s, c)"
    unfolding rg_def by blast
  have mem: "rg \<in> set [rg]" by simp
  note th = unclosed_region_keeps_start [of unclosed_example, THEN conjunct2, rule_format,
      OF res mem]
  have "endCol rg = startCol rg"
    by (rule th [THEN conjunct1, rule_format]) (simp add: unclosed_example_no_marker)
  moreover have "endRow rg = startRow rg"
    by (rule th [THEN conjunct2, rule_format]) (simp add: unclosed_example_no_marker)
  ultimately show ?thesis using res unfolding rg_def by blast
qed

text \<open>
  C1 as stated fails: on a sheet of five columns with a corner at row 45, column 1 and no
  closing marker the emitted region ends at column 1 and row 45, not at the column limit
  (5, or 4 as the last column read) and not at the row limit (100, or 99).
\<close>

theorem unclosed_region_counterexample:
  "map_sum id fst (get_table_ranges unclosed_example) =
     Inr [\<lparr>startRow = 45, startCol = 1, endRow = 45, endCol = 1\<rparr>] \<and>
   ws_max_column unclosed_example = 5 \<and>
   \<not> list_ex (\<lambda>c. has_top_right_border (sheet_cell unclosed_example 45 c)) [1 ..< 6] \<and>
   \<not> list_ex (\<lambda>r. has_bottom_right_border (sheet_cell unclosed_example r 1)) [45 ..< 101] \<and>
   find_end_col unclosed_example 45 1 \<noteq> 5 \<and> find_end_col unclosed_example 45 1 \<noteq> 4 \<and>
   find_end_row unclosed_example 45 1 \<noteq> 100 \<and> find_end_row unclosed_example 45 1 \<noteq> 99"
  by code_simp

end
